theory Spec2Isabelle
  imports
    Main
    "HOL-Library.Word"
    "HOL-Library.Monad_Syntax"
    "HOL-Library.Signed_Division"
begin

section \<open>Buffer commitment hashing: the embedding\<close>

text \<open>
  The functions below follow the C++ buffer hashing code (\<^verbatim>\<open>zero_hash\<close>, \<^verbatim>\<open>normal\<close>,
  \<^verbatim>\<open>pack\<close>, \<^verbatim>\<open>is_zero_hash\<close>, \<^verbatim>\<open>unpack\<close>, \<^verbatim>\<open>zero_packed\<close>, \<^verbatim>\<open>hash_buf\<close>,
  \<^verbatim>\<open>hash_node\<close>, \<^verbatim>\<open>Buffer::hash\<close>, \<^verbatim>\<open>Buffer::hash_aux\<close>) one by one.

  \<^item> \<^verbatim>\<open>uint256_t\<close> is a 256-bit word, \<^verbatim>\<open>uint8_t\<close> an 8-bit word, a byte array a list.
  \<^item> \<^verbatim>\<open>int\<close> is a 32-bit two's complement integer. Its values are kept as HOL integers;
    \<open>int32\<close> writes out the wrap-around where a sum, a product or a conversion can leave
    the range, and \<open>sdiv\<close> is the division of C++, which truncates towards zero.
  \<^item> The Keccak-256 primitive of the \<^verbatim>\<open>ethash\<close> library (followed by the big-endian load
    into a \<^verbatim>\<open>uint256_t\<close>) is a parameter \<open>kec\<close> of every function: the theorems hold
    for every digest function.
  \<^item> A call yields \<open>Some\<close> value when it returns. \<open>None\<close> stands for a call that yields
    no value: its recursion never reaches the base case (the source has no other exit),
    or it reads memory that is not there (a null pointer, a position outside the array).
\<close>

type_synonym uint8_t = "8 word"
type_synonym uint256_t = "256 word"
type_synonym keccak = "uint8_t list \<Rightarrow> uint256_t"

definition int32 :: "int \<Rightarrow> int" where
  "int32 x = (x + 2 ^ 31) mod 2 ^ 32 - 2 ^ 31"

subsection \<open>The two hash forms of the big-integer header\<close>

text \<open>
  Modelled from the spec: the one-argument and the two-argument \<^verbatim>\<open>hash\<close> on
  \<^verbatim>\<open>uint256_t\<close> are declared in \<^verbatim>\<open>avm_values/bigint.hpp\<close>, which is not among the
  sources. The spec gives them as the primitive digest of the 32-byte big-endian block of
  one value (so that \<^verbatim>\<open>hash(0)\<close> is the digest of 32 zero bytes) and as the digest of
  the 64-byte concatenation of two values.
\<close>

definition to_big_endian :: "uint256_t \<Rightarrow> uint8_t list" where
  "to_big_endian v = map (\<lambda>i. ucast (drop_bit (8 * (31 - i)) v)) [0..<32]"

definition hash_uint256 :: "keccak \<Rightarrow> uint256_t \<Rightarrow> uint256_t" where
  "hash_uint256 kec v = kec (to_big_endian v)"

definition hash_pair :: "keccak \<Rightarrow> uint256_t \<Rightarrow> uint256_t \<Rightarrow> uint256_t" where
  "hash_pair kec a b = kec (to_big_endian a @ to_big_endian b)"

subsection \<open>Packed values\<close>

text \<open>
  \<^verbatim>\<open>struct Packed { uint256_t hash; int size; int packed; }\<close>, as \<^verbatim>\<open>normal\<close> and
  \<^verbatim>\<open>pack\<close> build it. The field \<^verbatim>\<open>size\<close> is written \<open>size'\<close>.
\<close>

record Packed =
  hash :: uint256_t
  size' :: int
  packed :: int

text \<open>
  \<^verbatim>\<open>uint256_t zero_hash(int sz) { if (sz == 32) return hash(0);
  auto h1 = zero_hash(sz/2); return hash(h1, h1); }\<close>
\<close>

partial_function (option) zero_hash :: "keccak \<Rightarrow> int \<Rightarrow> uint256_t option" where
  "zero_hash kec sz =
     (if sz = 32 then Some (hash_uint256 kec 0)
      else do { h1 \<leftarrow> zero_hash kec (sz sdiv 2); Some (hash_pair kec h1 h1) })"

definition normal :: "uint256_t \<Rightarrow> int \<Rightarrow> Packed" where
  "normal h sz = \<lparr>hash = h, size' = sz, packed = 0\<rparr>"

definition pack :: "Packed \<Rightarrow> Packed" where
  "pack p = \<lparr>hash = hash p, size' = size' p, packed = int32 (packed p + 1)\<rparr>"

definition is_zero_hash :: "keccak \<Rightarrow> Packed \<Rightarrow> bool" where
  "is_zero_hash kec p \<longleftrightarrow> hash p = hash_uint256 kec 0"

text \<open>
  The loop of \<^verbatim>\<open>unpack\<close>:
  \<^verbatim>\<open>for (int i = 0; i < packed.packed; i++) { res = hash(res, zero_hash(sz)); sz = sz*2; }\<close>
  with \<open>n\<close> the bound \<^verbatim>\<open>packed.packed\<close>. The counter stays below the bound, so
  \<^verbatim>\<open>i++\<close> does not leave the range of \<^verbatim>\<open>int\<close>; the doubled size can.
\<close>

function unpack_loop :: "keccak \<Rightarrow> int \<Rightarrow> int \<Rightarrow> uint256_t \<Rightarrow> int \<Rightarrow> uint256_t option" where
  "unpack_loop kec n i res sz =
     (if i < n
      then do { z \<leftarrow> zero_hash kec sz;
                unpack_loop kec n (i + 1) (hash_pair kec res z) (int32 (sz * 2)) }
      else Some res)"
  by pat_completeness auto
termination
  by (relation "measure (\<lambda>(kec, n, i, res, sz). nat (n - i))") auto

definition unpack :: "keccak \<Rightarrow> Packed \<Rightarrow> uint256_t option" where
  "unpack kec p = unpack_loop kec (packed p) 0 (hash p) (size' p)"

text \<open>
  \<^verbatim>\<open>Packed zero_packed(int sz) { if (sz == 32) return normal(zero_hash(32), 32);
  return pack(zero_packed(sz/2)); }\<close>
\<close>

partial_function (option) zero_packed :: "keccak \<Rightarrow> int \<Rightarrow> Packed option" where
  "zero_packed kec sz =
     (if sz = 32 then do { z \<leftarrow> zero_hash kec 32; Some (normal z 32) }
      else do { p \<leftarrow> zero_packed kec (sz sdiv 2); Some (pack p) })"

text \<open>
  \<^verbatim>\<open>hash_buf(uint8_t *buf, int offset, int sz)\<close>. The base case hashes the 32 bytes at
  \<^verbatim>\<open>buf+offset\<close>; the array is a list, and a block that is not inside it gives no value.
\<close>

partial_function (option) hash_buf :: "keccak \<Rightarrow> uint8_t list \<Rightarrow> int \<Rightarrow> int \<Rightarrow> Packed option" where
  "hash_buf kec buf offset sz =
     (if sz = 32 then
        (if 0 \<le> offset \<and> nat offset + 32 \<le> length buf
         then Some (normal (kec (take 32 (drop (nat offset) buf))) 32)
         else None)
      else do {
        h1 \<leftarrow> hash_buf kec buf offset (sz sdiv 2);
        h2 \<leftarrow> hash_buf kec buf (int32 (offset + sz sdiv 2)) (sz sdiv 2);
        if is_zero_hash kec h2 then Some (pack h1)
        else do {
          u1 \<leftarrow> unpack kec h1;
          u2 \<leftarrow> unpack kec h2;
          Some (normal (hash_pair kec u1 u2) sz) } })"

subsection \<open>Buffers\<close>

text \<open>
  Modelled from the spec: the class \<^verbatim>\<open>Buffer\<close> is declared in \<^verbatim>\<open>avm_values/buffer.hpp\<close>,
  which is not among the sources. \<^verbatim>\<open>Buffer::hash_aux\<close> reads three members: the level,
  the pointer \<^verbatim>\<open>leaf\<close> to a byte vector and the pointer \<^verbatim>\<open>node\<close> to a vector of
  buffers; a null pointer is \<open>None\<close>. The spec gives the level as a non-negative integer
  and the extent of a level as \<open>1024 * 128 ^ level\<close> (\<^verbatim>\<open>calc_len\<close>, from the same header).
\<close>

datatype Buffer =
  Buffer (level: nat) (leaf: "uint8_t list option") (node: "Buffer list option")

definition calc_len :: "nat \<Rightarrow> int" where
  "calc_len lv = 1024 * 128 ^ lv"

text \<open>
  \<^verbatim>\<open>hash_node\<close> and \<^verbatim>\<open>Buffer::hash_aux\<close> call each other. They are one recursive
  function on the call made; \<open>hash_node\<close> and \<open>hash_aux\<close> below name its two halves, and
  the lemmas \<open>hash_node_code\<close> and \<open>hash_aux_code\<close> give each its source text back.
  The base case of \<^verbatim>\<open>hash_node\<close> is \<^verbatim>\<open>return buf[0].hash_aux();\<close> and the test at a
  level above 0 is \<^verbatim>\<open>if (!leaf)\<close>, as in the source. The extent \<^verbatim>\<open>calc_len(level)\<close> is
  passed to a parameter of type \<^verbatim>\<open>int\<close>, hence \<open>int32\<close> around it.
\<close>

datatype hash_call = Hash_aux Buffer | Hash_node "Buffer list" int int int

partial_function (option) hash_rec :: "keccak \<Rightarrow> hash_call \<Rightarrow> Packed option" where
  "hash_rec kec c =
     (case c of
        Hash_node buf offset len sz \<Rightarrow>
          if len = 1 then
            (case buf of [] \<Rightarrow> None | b0 # _ \<Rightarrow> hash_rec kec (Hash_aux b0))
          else do {
            h1 \<leftarrow> hash_rec kec (Hash_node buf offset (len sdiv 2) (sz sdiv 2));
            h2 \<leftarrow> hash_rec kec
                    (Hash_node buf (int32 (offset + len sdiv 2)) (len sdiv 2) (sz sdiv 2));
            if is_zero_hash kec h2 then Some (pack h1)
            else do {
              u1 \<leftarrow> unpack kec h1;
              u2 \<leftarrow> unpack kec h2;
              Some (normal (hash_pair kec u1 u2) sz) } }
      | Hash_aux b \<Rightarrow>
          if level b = 0 then
            (case leaf b of
               None \<Rightarrow> zero_packed kec 1024
             | Some data \<Rightarrow> hash_buf kec data 0 1024)
          else
            (case leaf b of
               None \<Rightarrow> zero_packed kec (int32 (calc_len (level b)))
             | Some _ \<Rightarrow>
                 (case node b of
                    None \<Rightarrow> None
                  | Some children \<Rightarrow>
                      hash_rec kec (Hash_node children 0 128 (int32 (calc_len (level b)))))))"

definition hash_node :: "keccak \<Rightarrow> Buffer list \<Rightarrow> int \<Rightarrow> int \<Rightarrow> int \<Rightarrow> Packed option" where
  "hash_node kec buf offset len sz = hash_rec kec (Hash_node buf offset len sz)"

definition hash_aux :: "keccak \<Rightarrow> Buffer \<Rightarrow> Packed option" where
  "hash_aux kec b = hash_rec kec (Hash_aux b)"

text \<open>\<^verbatim>\<open>uint256_t Buffer::hash() const { return hash_aux().hash; }\<close>\<close>

definition Buffer_hash :: "keccak \<Rightarrow> Buffer \<Rightarrow> uint256_t option" where
  "Buffer_hash kec b = map_option hash (hash_aux kec b)"

section \<open>Sizes, zero digests and the conditions of the claims\<close>

text \<open>
  The sizes the hashing functions are called with are \<open>32 * 2 ^ k\<close>; \<open>span k\<close> names
  them. An \<^verbatim>\<open>int\<close> holds \<open>span k\<close> for \<open>k \<le> 25\<close>.
\<close>

definition span :: "nat \<Rightarrow> int" where
  "span k = 32 * 2 ^ k"

text \<open>
  \<open>zero_digest kec k\<close> is the digest of 32 zero bytes combined with itself \<open>k\<close> times:
  the root of an all-zero region of \<open>span k\<close> bytes.
\<close>

definition zero_digest :: "keccak \<Rightarrow> nat \<Rightarrow> uint256_t" where
  "zero_digest kec k = ((\<lambda>h. hash_pair kec h h) ^^ k) (kec (replicate 32 0))"

text \<open>
  \<open>pad_zeros kec a m h\<close> is what the loop of \<^verbatim>\<open>unpack\<close> computes in \<open>m\<close> rounds from
  the digest \<open>h\<close> of a region of \<open>span a\<close> bytes: the region is doubled \<open>m\<close> times, and
  each new half is all zero.
\<close>

primrec pad_zeros :: "keccak \<Rightarrow> nat \<Rightarrow> nat \<Rightarrow> uint256_t \<Rightarrow> uint256_t" where
  "pad_zeros kec a 0 h = h"
| "pad_zeros kec a (Suc m) h = pad_zeros kec (Suc a) m (hash_pair kec h (zero_digest kec a))"

text \<open>
  A packed value covers \<open>span k\<close> bytes when its \<^verbatim>\<open>size\<close> is some \<open>span a\<close>, its
  \<^verbatim>\<open>packed\<close> count is some \<open>m\<close>, and \<open>a + m = k\<close>.
\<close>

definition covers :: "Packed \<Rightarrow> nat \<Rightarrow> bool" where
  "covers p k \<longleftrightarrow> (\<exists>a m. a + m = k \<and> size' p = span a \<and> packed p = int m)"

text \<open>
  \<open>halves_to_32 sz\<close>: halving \<open>sz\<close> again and again, with the division of the source,
  arrives at 32. This is the test \<^verbatim>\<open>sz == 32\<close> of the recursive functions, run ahead.
\<close>

function halves_to_32 :: "int \<Rightarrow> bool" where
  "halves_to_32 sz =
     (if sz = 32 then True else if sz < 32 then False else halves_to_32 (sz sdiv 2))"
  by pat_completeness auto
termination
  by (relation "measure nat") (auto simp: signed_divide_int_def sgn_if)

text \<open>
  A well-formed buffer, as the spec's data model has it: at level 0 at most a leaf of
  exactly 1024 bytes and no children; above, no leaf, and either no children (the buffer
  is empty) or exactly 128 well-formed children, each one level below.
\<close>

fun wf_Buffer :: "Buffer \<Rightarrow> bool" where
  "wf_Buffer (Buffer lv lf nd) =
     (if lv = 0 then
        nd = None \<and> (case lf of None \<Rightarrow> True | Some data \<Rightarrow> length data = 1024)
      else
        lf = None \<and>
        (case nd of
           None \<Rightarrow> True
         | Some children \<Rightarrow>
             length children = 128 \<and> (\<forall>c \<in> set children. level c = lv - 1 \<and> wf_Buffer c)))"

text \<open>
  A shaped buffer has the levels and lengths of a well-formed one, and nothing is asked of
  which pointer is null: at level 0 a leaf, if there is one, of exactly 1024 bytes; above,
  children, if there are any, that are 128 shaped buffers of the level below. Every
  well-formed buffer is shaped (\<open>wf_shaped\<close>); so is a buffer above level 0 that has both
  a leaf and children, the state in which \<^verbatim>\<open>hash_aux\<close> hands the children to
  \<^verbatim>\<open>hash_node\<close>.
\<close>

fun shaped :: "Buffer \<Rightarrow> bool" where
  "shaped (Buffer lv lf nd) =
     (if lv = 0 then
        (case lf of None \<Rightarrow> True | Some data \<Rightarrow> length data = 1024)
      else
        (case nd of
           None \<Rightarrow> True
         | Some children \<Rightarrow>
             length children = 128 \<and> (\<forall>c \<in> set children. level c = lv - 1 \<and> shaped c)))"

text \<open>
  A buffer of level \<open>L\<close> whose bytes are all zero: empty, or a leaf of 1024 zero bytes,
  or 128 children that are such buffers of level \<open>L - 1\<close>.
\<close>

fun zero_region :: "nat \<Rightarrow> Buffer \<Rightarrow> bool" where
  "zero_region L (Buffer lv lf nd) =
     (lv = L \<and>
      (if L = 0 then
         nd = None \<and> (lf = None \<or> lf = Some (replicate 1024 0))
       else
         lf = None \<and>
         (case nd of
            None \<Rightarrow> True
          | Some children \<Rightarrow>
              length children = 128 \<and> (\<forall>c \<in> set children. zero_region (L - 1) c))))"

subsection \<open>The hashing functions without compression\<close>





subsection \<open>What the zero test needs of the digest function\<close>

text \<open>
  The test \<^verbatim>\<open>is_zero_hash\<close> compares a digest with the digest of 32 zero bytes. It
  can tell an all-zero region only if the digest function has no collision with a zero
  digest: no pair of digests is combined to the digest of 32 zero bytes
  (\<open>no_false_zero\<close>), and only the pair of the zero digest of a size with itself is
  combined to the zero digest of the doubled size (\<open>zero_preimage_unique\<close>, for the sizes
  an \<^verbatim>\<open>int\<close> holds). A cryptographic digest is taken to have both properties; they are
  hypotheses of the theorems that need them. Of the two digest functions below,
  \<open>demo_kec\<close> has them and \<open>collide_kec\<close> has neither.
\<close>

definition no_false_zero :: "keccak \<Rightarrow> bool" where
  "no_false_zero kec \<longleftrightarrow> (\<forall>a b. hash_pair kec a b \<noteq> hash_uint256 kec 0)"

definition zero_preimage_unique :: "keccak \<Rightarrow> bool" where
  "zero_preimage_unique kec \<longleftrightarrow>
     (\<forall>k<25. \<forall>a b. hash_pair kec a b = zero_digest kec (Suc k) \<longrightarrow>
        a = zero_digest kec k \<and> b = zero_digest kec k)"

subsection \<open>The step that hash_buf and hash_node share\<close>


text \<open>
  Two properties of a packed value \<open>p\<close> that stands for \<open>span k\<close> bytes. It is
  \<open>flag_sound\<close> when it passes the zero test only if it unpacks to the zero digest of
  its size, and \<open>zero_tested\<close> when it passes the test exactly if it does.
\<close>

definition flag_sound :: "keccak \<Rightarrow> nat \<Rightarrow> Packed \<Rightarrow> bool" where
  "flag_sound kec k p \<longleftrightarrow>
     covers p k \<and> (is_zero_hash kec p \<longrightarrow> unpack kec p = Some (zero_digest kec k))"


subsection \<open>A digest function to compute with\<close>

text \<open>
  The theorems hold for every digest function. Where a statement is run on a concrete
  input, the digest is \<open>demo_kec\<close>: it numbers the zero digests (32 zero bytes give 1, the
  pair of the digest \<open>n\<close> with itself gives \<open>n + 1\<close> up to 100) and sends every other
  block to 0. \<open>from_big_endian\<close> reads a block back as a number.
\<close>

definition from_big_endian :: "uint8_t list \<Rightarrow> uint256_t" where
  "from_big_endian bs = foldl (\<lambda>acc b. push_bit 8 acc + ucast b) 0 bs"

definition demo_kec :: keccak where
  "demo_kec bs =
     (if length bs = 64 then
        (let a = from_big_endian (take 32 bs); b = from_big_endian (drop 32 bs)
         in if a = b \<and> 0 < unat a \<and> unat a \<le> 100 then a + 1 else 0)
      else if bs = replicate 32 0 then 1 else 0)"

text \<open>
  \<open>collide_kec\<close> is a digest function with two collisions. It numbers the zero digests
  as \<open>demo_kec\<close> does, and sends a block of 32 bytes 7 to 150, a block of 32 bytes 9 to
  160 and every other block to 151. The pair of 150 with itself gives 1, the digest of 32
  zero bytes; the pair of 160 with itself gives 2, the zero digest of 64 bytes; every other
  pair \<open>(a, b)\<close> gives \<open>200 + a + 2 * b\<close>. It has neither \<open>no_false_zero\<close> nor
  \<open>zero_preimage_unique\<close>.
\<close>

definition collide_kec :: keccak where
  "collide_kec bs =
     (if length bs = 64 then
        (let a = from_big_endian (take 32 bs); b = from_big_endian (drop 32 bs)
         in if a = 150 \<and> b = 150 then 1
            else if a = 160 \<and> b = 160 then 2
            else if a = b \<and> 0 < unat a \<and> unat a \<le> 100 then a + 1
            else 200 + a + 2 * b)
      else if bs = replicate 32 0 then 1
      else if bs = replicate 32 7 then 150
      else if bs = replicate 32 9 then 160
      else 151)"

section \<open>The source text of the two mutually recursive functions\<close>

lemma hash_node_code:
  "hash_node kec buf offset len sz =
     (if len = 1 then
        (case buf of [] \<Rightarrow> None | b0 # _ \<Rightarrow> hash_aux kec b0)
      else do {
        h1 \<leftarrow> hash_node kec buf offset (len sdiv 2) (sz sdiv 2);
        h2 \<leftarrow> hash_node kec buf (int32 (offset + len sdiv 2)) (len sdiv 2) (sz sdiv 2);
        if is_zero_hash kec h2 then Some (pack h1)
        else do {
          u1 \<leftarrow> unpack kec h1;
          u2 \<leftarrow> unpack kec h2;
          Some (normal (hash_pair kec u1 u2) sz) } })"
  unfolding hash_node_def hash_aux_def
  by (subst hash_rec.simps) simp

lemma hash_aux_code:
  "hash_aux kec b =
     (if level b = 0 then
        (case leaf b of
           None \<Rightarrow> zero_packed kec 1024
         | Some data \<Rightarrow> hash_buf kec data 0 1024)
      else
        (case leaf b of
           None \<Rightarrow> zero_packed kec (int32 (calc_len (level b)))
         | Some _ \<Rightarrow>
             (case node b of
                None \<Rightarrow> None
              | Some children \<Rightarrow> hash_node kec children 0 128 (int32 (calc_len (level b))))))"
  unfolding hash_node_def hash_aux_def
  by (subst hash_rec.simps) simp

lemma hash_aux_null_leaf:
  "0 < lv \<Longrightarrow> hash_aux kec (Buffer lv None nd) = zero_packed kec (int32 (calc_len lv))"
  by (simp add: hash_aux_code)

section \<open>Integer facts\<close>

lemma int32_id: "- (2 ^ 31) \<le> x \<Longrightarrow> x < 2 ^ 31 \<Longrightarrow> int32 x = x"
  by (simp add: int32_def)

lemma sdiv2_nonneg: "0 \<le> a \<Longrightarrow> a sdiv 2 = a div (2::int)"
  by (simp add: signed_divide_int_def sgn_if)

lemma sdiv2_nonpos: "a \<le> 0 \<Longrightarrow> a sdiv (2::int) \<le> 0"
  by (simp add: signed_divide_int_def sgn_if)

lemma sdiv_numeral_eval: "(numeral m :: int) sdiv 2 = numeral m div 2"
  by (rule sdiv2_nonneg) simp

lemma span_0: "span 0 = 32"
  by (simp add: span_def)

lemma span_5: "span 5 = 1024"
  by (simp add: span_def)

lemma span_Suc: "span (Suc k) = 2 * span k"
  by (simp add: span_def)

lemma span_pos: "0 < span k"
  by (simp add: span_def)

lemma span_ge: "32 \<le> span k"
proof -
  have "(1::int) \<le> 2 ^ k" by simp
  then have "(32::int) * 1 \<le> 32 * 2 ^ k" by (rule mult_left_mono) simp
  then show ?thesis by (simp add: span_def)
qed

lemma span_Suc_neq: "span (Suc k) \<noteq> 32"
  using span_ge [of k] by (simp add: span_Suc)

lemma span_Suc_sdiv: "span (Suc k) sdiv 2 = span k"
  using span_pos [of k] by (simp add: span_Suc sdiv2_nonneg)

lemma span_mono: "j \<le> k \<Longrightarrow> span j \<le> span k"
  by (simp add: span_def)

lemma span_25: "span 25 = 2 ^ 30"
  by (simp add: span_def)

lemma span_bound: "k \<le> 25 \<Longrightarrow> span k < 2 ^ 31"
  using span_mono [of k 25] by (simp add: span_25)

lemma int32_span: "k \<le> 25 \<Longrightarrow> int32 (span k) = span k"
  using span_bound [of k] span_pos [of k] by (intro int32_id) simp_all

declare halves_to_32.simps [simp del]

lemma halves_to_32_base: "halves_to_32 32"
  by (subst halves_to_32.simps) simp

lemma halves_to_32_step: "halves_to_32 (sz sdiv 2) \<Longrightarrow> halves_to_32 sz"
proof -
  assume h: "halves_to_32 (sz sdiv 2)"
  have "32 \<le> sz sdiv 2"
    using h by (subst (asm) halves_to_32.simps) (auto split: if_splits)
  then have "32 < sz" "sz \<noteq> 32"
    by (cases "0 \<le> sz"; simp add: sdiv2_nonneg; use sdiv2_nonpos [of sz] in linarith)+
  with h show ?thesis by (subst halves_to_32.simps) simp
qed

lemma halves_to_32_rec: "halves_to_32 sz \<Longrightarrow> sz \<noteq> 32 \<Longrightarrow> halves_to_32 (sz sdiv 2)"
  by (subst (asm) halves_to_32.simps) (simp split: if_splits)

section \<open>The zero hashes\<close>

lemma to_big_endian_0: "to_big_endian 0 = replicate 32 0"
  by (simp add: to_big_endian_def map_replicate_const)

lemma length_to_big_endian: "length (to_big_endian v) = 32"
  by (simp add: to_big_endian_def)

lemma hash_uint256_0: "hash_uint256 kec 0 = kec (replicate 32 0)"
  by (simp add: hash_uint256_def to_big_endian_0)

lemma zero_digest_0: "zero_digest kec 0 = hash_uint256 kec 0"
  by (simp add: zero_digest_def hash_uint256_0)

lemma zero_digest_Suc:
  "zero_digest kec (Suc k) = hash_pair kec (zero_digest kec k) (zero_digest kec k)"
  by (simp add: zero_digest_def)

lemma zero_hash_32: "zero_hash kec 32 = Some (hash_uint256 kec 0)"
  by (subst zero_hash.simps) simp

lemma zero_hash_step:
  "sz \<noteq> 32 \<Longrightarrow>
   zero_hash kec sz = zero_hash kec (sz sdiv 2) \<bind> (\<lambda>h1. Some (hash_pair kec h1 h1))"
  by (subst zero_hash.simps) simp

lemma zero_hash_span: "zero_hash kec (span k) = Some (zero_digest kec k)"
proof (induction k)
  case 0
  show ?case by (simp add: span_0 zero_hash_32 zero_digest_0)
next
  case (Suc k)
  have "zero_hash kec (span (Suc k)) =
        zero_hash kec (span (Suc k) sdiv 2) \<bind> (\<lambda>h1. Some (hash_pair kec h1 h1))"
    by (rule zero_hash_step) (rule span_Suc_neq)
  also have "\<dots> = Some (hash_pair kec (zero_digest kec k) (zero_digest kec k))"
    by (simp only: span_Suc_sdiv Suc.IH bind.bind_lunit)
  finally show ?case by (simp only: zero_digest_Suc)
qed

lemma zero_hash_1024: "zero_hash kec 1024 = Some (zero_digest kec 5)"
  using zero_hash_span [of kec 5] by (simp add: span_5)

text \<open>A call of \<^verbatim>\<open>zero_hash\<close> returns exactly when halving the size arrives at 32.\<close>

lemma zero_hash_Some_halves:
  assumes "zero_hash kec sz = Some h"
  shows "halves_to_32 sz"
proof (rule zero_hash.raw_induct [where P = "\<lambda>_ sz _. halves_to_32 sz", OF _ assms])
  fix zh kec sz h
  assume IH: "\<And>kec sz h. zh kec sz = Some h \<Longrightarrow> halves_to_32 sz"
    and body: "(if sz = 32 then Some (hash_uint256 kec 0)
                else zh kec (sz sdiv 2) \<bind> (\<lambda>h1. Some (hash_pair kec h1 h1))) = Some h"
  show "halves_to_32 sz"
  proof (cases "sz = 32")
    case True
    then show ?thesis by (simp add: halves_to_32_base)
  next
    case False
    with body obtain h1 where "zh kec (sz sdiv 2) = Some h1"
      by (auto simp: bind_eq_Some_conv)
    then have "halves_to_32 (sz sdiv 2)" by (rule IH)
    then show ?thesis by (rule halves_to_32_step)
  qed
qed

lemma halves_zero_hash: "halves_to_32 sz \<Longrightarrow> \<exists>h. zero_hash kec sz = Some h"
proof (induction sz rule: halves_to_32.induct)
  case (1 sz)
  show ?case
  proof (cases "sz = 32")
    case True
    then show ?thesis by (simp add: zero_hash_32)
  next
    case False
    with "1.prems" have gt: "\<not> sz < 32"
      by (subst (asm) halves_to_32.simps) (simp split: if_splits)
    have rec: "halves_to_32 (sz sdiv 2)"
      using "1.prems" False by (rule halves_to_32_rec)
    from "1.IH" [OF False gt rec] obtain h1 where "zero_hash kec (sz sdiv 2) = Some h1" by blast
    then show ?thesis by (simp add: zero_hash_step [OF False])
  qed
qed

section \<open>Unpacking\<close>

declare unpack_loop.simps [simp del]

lemma pad_zeros_zero: "pad_zeros kec a m (zero_digest kec a) = zero_digest kec (a + m)"
  by (induction m arbitrary: a) (simp_all add: zero_digest_Suc [symmetric])

lemma pad_zeros_last:
  "pad_zeros kec a (Suc m) h = hash_pair kec (pad_zeros kec a m h) (zero_digest kec (a + m))"
  by (induction m arbitrary: a h) simp_all

lemma unpack_loop_step:
  "i < n \<Longrightarrow> zero_hash kec sz = Some z \<Longrightarrow>
   unpack_loop kec n i res sz = unpack_loop kec n (i + 1) (hash_pair kec res z) (int32 (sz * 2))"
  by (subst unpack_loop.simps) simp

lemma unpack_loop_done: "\<not> i < n \<Longrightarrow> unpack_loop kec n i res sz = Some res"
  by (subst unpack_loop.simps) simp

lemma unpack_loop_span:
  "a + m \<le> 25 \<Longrightarrow> n = i + int m \<Longrightarrow>
   unpack_loop kec n i res (span a) = Some (pad_zeros kec a m res)"
proof (induction m arbitrary: a i res)
  case 0
  then show ?case by (simp add: unpack_loop_done)
next
  case (Suc m)
  have sz: "int32 (span a * 2) = span (Suc a)"
    using int32_span [of "Suc a"] Suc.prems(1) by (simp add: span_Suc mult.commute)
  have "unpack_loop kec n i res (span a) =
        unpack_loop kec n (i + 1) (hash_pair kec res (zero_digest kec a)) (span (Suc a))"
    using Suc.prems(2) by (simp add: unpack_loop_step [OF _ zero_hash_span] sz)
  also have "\<dots> = Some (pad_zeros kec (Suc a) m (hash_pair kec res (zero_digest kec a)))"
    using Suc.prems by (intro Suc.IH) simp_all
  finally show ?case by simp
qed


lemma unpack_covers:
  assumes "covers p k" "k \<le> 25"
  shows "\<exists>u. unpack kec p = Some u"
  using assms unfolding covers_def unpack_def
  by (auto simp: unpack_loop_span)

lemma covers_normal: "covers (normal h (span k)) k"
  by (simp add: covers_def normal_def)

lemma covers_pack: "covers p k \<Longrightarrow> k < 25 \<Longrightarrow> covers (pack p) (Suc k)"
  unfolding covers_def pack_def
  apply clarsimp
  subgoal for a m
    apply (rule exI [of _ a], rule exI [of _ "Suc m"])
    apply (simp add: int32_id)
    done
  done

lemma covers_size: "covers p k \<Longrightarrow> 0 \<le> packed p \<and> size' p * 2 ^ nat (packed p) = span k"
  unfolding covers_def by (auto simp: span_def power_add)

lemma unpack_pack:
  assumes "covers p k" "k < 25"
  shows "unpack kec (pack p) =
         unpack kec p \<bind> (\<lambda>u. Some (hash_pair kec u (zero_digest kec k)))"
proof -
  from assms(1) obtain a m where am: "a + m = k" "size' p = span a" "packed p = int m"
    unfolding covers_def by blast
  have pk: "packed (pack p) = int (Suc m)" "size' (pack p) = span a" "hash (pack p) = hash p"
    using am assms(2) by (simp_all add: pack_def int32_id)
  have "unpack kec (pack p) = Some (pad_zeros kec a (Suc m) (hash p))"
    unfolding unpack_def pk using am assms(2) by (intro unpack_loop_span) simp_all
  moreover have "unpack kec p = Some (pad_zeros kec a m (hash p))"
    unfolding unpack_def am using am assms(2) by (intro unpack_loop_span) simp_all
  ultimately show ?thesis
    using am by (simp only: pad_zeros_last bind.bind_lunit)
qed

lemma unpack_zero_packed:
  "k \<le> 25 \<Longrightarrow>
   unpack kec \<lparr>hash = hash_uint256 kec 0, size' = 32, packed = int k\<rparr> =
     Some (zero_digest kec k)"
  using unpack_loop_span [of 0 k "int k" 0 kec "hash_uint256 kec 0"] pad_zeros_zero [of kec 0 k]
  by (simp add: unpack_def span_0 zero_digest_0)

section \<open>The packed zero\<close>

lemma zero_packed_32: "zero_packed kec 32 = Some (normal (hash_uint256 kec 0) 32)"
  by (subst zero_packed.simps) (simp add: zero_hash_32)

lemma zero_packed_step:
  "sz \<noteq> 32 \<Longrightarrow> zero_packed kec sz = zero_packed kec (sz sdiv 2) \<bind> (\<lambda>p. Some (pack p))"
  by (subst zero_packed.simps) simp

lemma zero_packed_span:
  "k \<le> 25 \<Longrightarrow>
   zero_packed kec (span k) = Some \<lparr>hash = hash_uint256 kec 0, size' = 32, packed = int k\<rparr>"
proof (induction k)
  case 0
  show ?case by (simp add: span_0 zero_packed_32 normal_def)
next
  case (Suc k)
  then show ?case
    by (simp add: zero_packed_step [OF span_Suc_neq] span_Suc_sdiv pack_def int32_id)
qed

lemma zero_packed_Some:
  assumes "zero_packed kec sz = Some p"
  shows "halves_to_32 sz \<and> hash p = hash_uint256 kec 0 \<and> size' p = 32"
proof (rule zero_packed.raw_induct
    [where P = "\<lambda>kec sz p. halves_to_32 sz \<and> hash p = hash_uint256 kec 0 \<and> size' p = 32",
     OF _ assms])
  fix zp kec sz p
  assume IH: "\<And>kec sz p. zp kec sz = Some p \<Longrightarrow>
                halves_to_32 sz \<and> hash p = hash_uint256 kec 0 \<and> size' p = 32"
    and body: "(if sz = 32 then zero_hash kec 32 \<bind> (\<lambda>z. Some (normal z 32))
                else zp kec (sz sdiv 2) \<bind> (\<lambda>p. Some (pack p))) = Some p"
  show "halves_to_32 sz \<and> hash p = hash_uint256 kec 0 \<and> size' p = 32"
  proof (cases "sz = 32")
    case True
    with body show ?thesis
      by (auto simp: zero_hash_32 normal_def halves_to_32_base)
  next
    case False
    with body obtain q where q: "zp kec (sz sdiv 2) = Some q" "p = pack q"
      by (auto simp: bind_eq_Some_conv)
    from IH [OF q(1)] show ?thesis
      by (simp add: q(2) pack_def halves_to_32_step)
  qed
qed

lemma halves_zero_packed: "halves_to_32 sz \<Longrightarrow> \<exists>p. zero_packed kec sz = Some p"
proof (induction sz rule: halves_to_32.induct)
  case (1 sz)
  show ?case
  proof (cases "sz = 32")
    case True
    then show ?thesis by (simp add: zero_packed_32)
  next
    case False
    with "1.prems" have gt: "\<not> sz < 32"
      by (subst (asm) halves_to_32.simps) (simp split: if_splits)
    have rec: "halves_to_32 (sz sdiv 2)"
      using "1.prems" False by (rule halves_to_32_rec)
    from "1.IH" [OF False gt rec] obtain q where "zero_packed kec (sz sdiv 2) = Some q" by blast
    then show ?thesis by (simp add: zero_packed_step [OF False])
  qed
qed

section \<open>Hashing a leaf\<close>

lemma hash_buf_32:
  "hash_buf kec buf offset 32 =
     (if 0 \<le> offset \<and> nat offset + 32 \<le> length buf
      then Some (normal (kec (take 32 (drop (nat offset) buf))) 32) else None)"
  by (subst hash_buf.simps) simp

lemma hash_buf_step:
  "sz \<noteq> 32 \<Longrightarrow>
   hash_buf kec buf offset sz =
     do { h1 \<leftarrow> hash_buf kec buf offset (sz sdiv 2);
          h2 \<leftarrow> hash_buf kec buf (int32 (offset + sz sdiv 2)) (sz sdiv 2);
          if is_zero_hash kec h2 then Some (pack h1)
          else do { u1 \<leftarrow> unpack kec h1; u2 \<leftarrow> unpack kec h2;
                    Some (normal (hash_pair kec u1 u2) sz) } }"
  by (subst hash_buf.simps) simp

lemma hash_buf_Some_halves:
  assumes "hash_buf kec buf offset sz = Some p"
  shows "halves_to_32 sz"
proof (rule hash_buf.raw_induct [where P = "\<lambda>_ _ _ sz _. halves_to_32 sz", OF _ assms])
  fix hb kec buf offset sz p
  assume IH: "\<And>kec buf offset sz p. hb kec buf offset sz = Some p \<Longrightarrow> halves_to_32 sz"
    and body: "(if sz = 32 then
                  (if 0 \<le> offset \<and> nat offset + 32 \<le> length buf
                   then Some (normal (kec (take 32 (drop (nat offset) buf))) 32) else None)
                else hb kec buf offset (sz sdiv 2) \<bind>
                  (\<lambda>h1. hb kec buf (int32 (offset + sz sdiv 2)) (sz sdiv 2) \<bind>
                    (\<lambda>h2. if is_zero_hash kec h2 then Some (pack h1)
                          else unpack kec h1 \<bind>
                            (\<lambda>u1. unpack kec h2 \<bind>
                              (\<lambda>u2. Some (normal (hash_pair kec u1 u2) sz)))))) = Some p"
  show "halves_to_32 sz"
  proof (cases "sz = 32")
    case True
    then show ?thesis by (simp add: halves_to_32_base)
  next
    case False
    with body obtain h1 where "hb kec buf offset (sz sdiv 2) = Some h1"
      by (auto simp: bind_eq_Some_conv)
    then have "halves_to_32 (sz sdiv 2)" by (rule IH)
    then show ?thesis by (rule halves_to_32_step)
  qed
qed

lemma hash_buf_returns:
  "k \<le> 25 \<Longrightarrow> 0 \<le> offset \<Longrightarrow> offset + span k \<le> int (length buf) \<Longrightarrow>
   int (length buf) < 2 ^ 31 \<Longrightarrow>
   \<exists>p. hash_buf kec buf offset (span k) = Some p \<and> covers p k"
proof (induction k arbitrary: offset)
  case 0
  then have "nat offset + 32 \<le> length buf" by (simp add: span_0)
  with 0 show ?case
    using covers_normal [of _ 0] by (simp add: span_0 hash_buf_32)
next
  case (Suc k)
  have k: "k \<le> 25" "k < 25" using Suc.prems(1) by simp_all
  have off2: "int32 (offset + span k) = offset + span k"
    using Suc.prems span_pos [of k] by (intro int32_id) (simp_all add: span_Suc)
  obtain h1 where h1: "hash_buf kec buf offset (span k) = Some h1" "covers h1 k"
    using Suc.IH [of offset] Suc.prems k span_pos [of k] by (auto simp: span_Suc)
  obtain h2 where h2: "hash_buf kec buf (offset + span k) (span k) = Some h2" "covers h2 k"
    using Suc.IH [of "offset + span k"] Suc.prems k span_pos [of k] by (auto simp: span_Suc)
  obtain u1 where u1: "unpack kec h1 = Some u1" using unpack_covers [OF h1(2) k(1)] by blast
  obtain u2 where u2: "unpack kec h2 = Some u2" using unpack_covers [OF h2(2) k(1)] by blast
  show ?case
    using h1 h2 u1 u2 covers_pack [OF h1(2) k(2)] covers_normal [of _ "Suc k"]
    by (simp add: hash_buf_step [OF span_Suc_neq] span_Suc_sdiv off2)
qed

lemma covers_hash_buf:
  "k \<le> 25 \<Longrightarrow> hash_buf kec buf offset (span k) = Some p \<Longrightarrow> covers p k"
proof (induction k arbitrary: offset p)
  case 0
  then show ?case
    using covers_normal [of _ 0] by (auto simp: span_0 hash_buf_32 split: if_splits)
next
  case (Suc k)
  have k: "k \<le> 25" "k < 25" using Suc.prems(1) by simp_all
  from Suc.prems(2) obtain h1 h2 where
    h1: "hash_buf kec buf offset (span k) = Some h1" and
    h2: "hash_buf kec buf (int32 (offset + span k)) (span k) = Some h2" and
    p: "(if is_zero_hash kec h2 then Some (pack h1)
         else unpack kec h1 \<bind> (\<lambda>u1. unpack kec h2 \<bind>
                (\<lambda>u2. Some (normal (hash_pair kec u1 u2) (span (Suc k)))))) = Some p"
    by (auto simp: hash_buf_step [OF span_Suc_neq] span_Suc_sdiv bind_eq_Some_conv)
  have c1: "covers h1 k" using Suc.IH [OF k(1) h1] .
  show ?case
  proof (cases "is_zero_hash kec h2")
    case True
    with p have "p = pack h1" by simp
    then show ?thesis using covers_pack [OF c1 k(2)] by simp
  next
    case False
    with p obtain u where "p = normal u (span (Suc k))"
      by (auto simp: bind_eq_Some_conv)
    then show ?thesis by (simp add: covers_normal)
  qed
qed

lemma hash_buf_zeros:
  "k \<le> 25 \<Longrightarrow> 0 \<le> offset \<Longrightarrow> offset + span k \<le> int n \<Longrightarrow> int n < 2 ^ 31 \<Longrightarrow>
   hash_buf kec (replicate n 0) offset (span k) =
     Some \<lparr>hash = hash_uint256 kec 0, size' = 32, packed = int k\<rparr>"
proof (induction k arbitrary: offset)
  case 0
  then have "nat offset + 32 \<le> n" by (simp add: span_0)
  then have "min 32 (n - nat offset) = 32" by simp
  with 0 show ?case
    by (simp add: span_0 hash_buf_32 hash_uint256_0 normal_def)
next
  case (Suc k)
  have k: "k \<le> 25" "k < 25" using Suc.prems(1) by simp_all
  have off2: "int32 (offset + span k) = offset + span k"
    using Suc.prems span_pos [of k] by (intro int32_id) (simp_all add: span_Suc)
  have h1: "hash_buf kec (replicate n 0) offset (span k) =
            Some \<lparr>hash = hash_uint256 kec 0, size' = 32, packed = int k\<rparr>"
    using Suc.prems k span_pos [of k] by (intro Suc.IH) (simp_all add: span_Suc)
  have h2: "hash_buf kec (replicate n 0) (offset + span k) (span k) =
            Some \<lparr>hash = hash_uint256 kec 0, size' = 32, packed = int k\<rparr>"
    using Suc.prems k span_pos [of k] by (intro Suc.IH) (simp_all add: span_Suc)
  show ?case
    using k by (simp add: hash_buf_step [OF span_Suc_neq] span_Suc_sdiv off2 h1 h2
        is_zero_hash_def pack_def int32_id)
qed

section \<open>Hashing a buffer\<close>

lemma hash_aux_empty0:
  "hash_aux kec (Buffer 0 None nd) =
     Some \<lparr>hash = hash_uint256 kec 0, size' = 32, packed = 5\<rparr>"
  using zero_packed_span [of 5 kec] by (simp add: hash_aux_code span_5)

lemma hash_aux_zero_leaf:
  "hash_aux kec (Buffer 0 (Some (replicate 1024 0)) nd) =
     Some \<lparr>hash = hash_uint256 kec 0, size' = 32, packed = 5\<rparr>"
  using hash_buf_zeros [of 5 0 1024 kec] by (simp add: hash_aux_code span_5)

lemma Buffer_hash_empty0: "Buffer_hash kec (Buffer 0 None nd) = Some (hash_uint256 kec 0)"
  by (simp add: Buffer_hash_def hash_aux_empty0)

lemma expand_empty0:
  "(hash_aux kec (Buffer 0 None nd) \<bind> unpack kec) = Some (zero_digest kec 5)"
  using unpack_zero_packed [of 5 kec] by (simp add: hash_aux_empty0)

section \<open>The digest function to compute with\<close>

lemma byte_split: "push_bit 8 (drop_bit 8 w) + ucast (ucast w :: uint8_t) = (w :: uint256_t)"
proof -
  have "ucast (ucast w :: uint8_t) = (take_bit 8 w :: uint256_t)"
    by (rule bit_word_eqI) (auto simp: bit_simps)
  then show ?thesis by (simp add: bits_ident)
qed

lemma foldl_big_endian:
  "n \<le> 32 \<Longrightarrow>
   foldl (\<lambda>acc b. push_bit 8 acc + ucast b) 0
     (map (\<lambda>i. ucast (drop_bit (8 * (31 - i)) v) :: uint8_t) [0..<n]) =
   drop_bit (8 * (32 - n)) (v :: uint256_t)"
proof (induction n)
  case 0
  show ?case by (simp add: drop_bit_word_beyond)
next
  case (Suc n)
  let ?w = "drop_bit (8 * (31 - n)) v"
  from Suc.prems have e: "8 * (32 - n) = 8 * (31 - n) + 8" by simp
  have d: "drop_bit (8 * (32 - n)) v = drop_bit 8 ?w"
    by (simp only: e drop_bit_drop_bit add.commute [of 8])
  have "foldl (\<lambda>acc b. push_bit 8 acc + ucast b) 0
          (map (\<lambda>i. ucast (drop_bit (8 * (31 - i)) v) :: uint8_t) [0..<Suc n]) =
        push_bit 8 (drop_bit (8 * (32 - n)) v) + ucast (ucast ?w :: uint8_t)"
    using Suc by simp
  also have "\<dots> = ?w"
    by (simp only: d byte_split)
  finally show ?case by simp
qed

lemma from_to_big_endian: "from_big_endian (to_big_endian v) = v"
  using foldl_big_endian [of 32 v] by (simp add: from_big_endian_def to_big_endian_def)

lemma demo_hash_uint256_0: "hash_uint256 demo_kec 0 = 1"
  by (simp add: hash_uint256_0 demo_kec_def)

lemma demo_hash_pair:
  "hash_pair demo_kec a b = (if a = b \<and> 0 < unat a \<and> unat a \<le> 100 then a + 1 else 0)"
  by (simp add: hash_pair_def demo_kec_def length_to_big_endian from_to_big_endian)

lemma unat_small: "n \<le> 101 \<Longrightarrow> unat (of_nat n :: uint256_t) = n"
  by (simp add: unat_of_nat)

lemma demo_zero_digest: "k \<le> 99 \<Longrightarrow> zero_digest demo_kec k = of_nat (Suc k)"
proof (induction k)
  case 0
  show ?case using demo_hash_uint256_0 by (simp add: zero_digest_0)
next
  case (Suc k)
  then have ih: "zero_digest demo_kec k = of_nat (Suc k)" by simp
  have u: "unat (of_nat (Suc k) :: uint256_t) = Suc k"
    using Suc.prems by (intro unat_small) simp
  show ?case
    unfolding zero_digest_Suc ih demo_hash_pair u using Suc.prems by simp
qed

section \<open>Levels and extents\<close>

lemma calc_len_span: "calc_len lv = span (5 + 7 * lv)"
proof -
  have "(128::int) ^ lv = 2 ^ (7 * lv)"
    by (simp add: power_mult)
  then show ?thesis
    by (simp add: calc_len_def span_def power_add)
qed

lemma int32_calc_len: "lv \<le> 2 \<Longrightarrow> int32 (calc_len lv) = span (5 + 7 * lv)"
  unfolding calc_len_span by (rule int32_span) simp

lemma halves_to_32_ge: "halves_to_32 sz \<Longrightarrow> 32 \<le> sz"
  by (subst (asm) halves_to_32.simps) (simp split: if_splits)

lemma int32_calc_len_high:
  assumes "3 \<le> lv"
  shows "int32 (calc_len lv) \<le> 0"
proof -
  obtain j where lv: "lv = 3 + j" using assms by (metis le_Suc_ex)
  have "calc_len lv = 2 ^ 31 * 128 ^ j"
    by (simp add: calc_len_def lv power_add)
  then obtain m :: int where m: "calc_len lv = 2 ^ 31 * m" by blast
  have "(calc_len lv + 2 ^ 31) mod 2 ^ 32 = 2 ^ 31 * ((m + 1) mod 2)"
    unfolding m using mult_mod_right [of "2 ^ 31" "m + 1" 2] by (simp add: distrib_left)
  moreover have "(m + 1) mod 2 \<le> 1" by simp
  ultimately show ?thesis
    by (simp add: int32_def)
qed

lemma no_commitment_high_level:
  "3 \<le> lv \<Longrightarrow> hash_aux kec (Buffer lv None nd) = None"
proof -
  assume l: "3 \<le> lv"
  have "\<not> halves_to_32 (int32 (calc_len lv))"
    using int32_calc_len_high [OF l] halves_to_32_ge [of "int32 (calc_len lv)"] by auto
  then have "zero_packed kec (int32 (calc_len lv)) = None"
    using zero_packed_Some [of kec "int32 (calc_len lv)"] by (cases "zero_packed kec (int32 (calc_len lv))") auto
  with l show ?thesis by (simp add: hash_aux_null_leaf)
qed

lemma hash_aux_empty:
  "lv \<le> 2 \<Longrightarrow>
   hash_aux kec (Buffer lv None nd) =
     Some \<lparr>hash = hash_uint256 kec 0, size' = 32, packed = int (5 + 7 * lv)\<rparr>"
proof (cases "lv = 0")
  case True
  then show ?thesis by (simp add: hash_aux_empty0)
next
  case False
  assume "lv \<le> 2"
  with False show ?thesis
    using zero_packed_span [of "5 + 7 * lv" kec]
    by (simp add: hash_aux_null_leaf int32_calc_len)
qed

section \<open>Well-formed buffers\<close>

lemma wf_hash_aux:
  assumes "wf_Buffer b"
  shows "hash_aux kec b =
     (if level b = 0 then
        (case leaf b of None \<Rightarrow> zero_packed kec 1024 | Some data \<Rightarrow> hash_buf kec data 0 1024)
      else zero_packed kec (int32 (calc_len (level b))))"
  using assms by (cases b) (auto simp: hash_aux_code split: option.splits)

lemma wf_hash_aux_covers:
  assumes "wf_Buffer b" "level b \<le> 2"
  shows "\<exists>p. hash_aux kec b = Some p \<and> covers p (5 + 7 * level b)"
proof (cases b)
  case (Buffer lv lf nd)
  show ?thesis
  proof (cases "lf")
    case None
    have "covers \<lparr>hash = hash_uint256 kec 0, size' = 32, packed = int (5 + 7 * lv)\<rparr> (5 + 7 * lv)"
      unfolding covers_def by (intro exI [of _ 0] exI [of _ "5 + 7 * lv"]) (simp add: span_0)
    with None Buffer assms show ?thesis by (simp add: hash_aux_empty)
  next
    case (Some data)
    with assms Buffer have lv: "lv = 0" and len: "length data = 1024"
      by (auto split: if_splits)
    from hash_buf_returns [of 5 0 data kec] len
    show ?thesis by (simp add: Buffer Some lv hash_aux_code span_5)
  qed
qed


section \<open>Hashing a node\<close>

lemma hash_node_1: "hash_node kec (b0 # rest) offset 1 sz = hash_aux kec b0"
  by (simp add: hash_node_code [of kec _ offset 1])

lemma hash_node_step:
  "len \<noteq> 1 \<Longrightarrow>
   hash_node kec buf offset len sz =
     do { h1 \<leftarrow> hash_node kec buf offset (len sdiv 2) (sz sdiv 2);
          h2 \<leftarrow> hash_node kec buf (int32 (offset + len sdiv 2)) (len sdiv 2) (sz sdiv 2);
          if is_zero_hash kec h2 then Some (pack h1)
          else do { u1 \<leftarrow> unpack kec h1; u2 \<leftarrow> unpack kec h2;
                    Some (normal (hash_pair kec u1 u2) sz) } }"
  by (subst hash_node_code) simp

lemma pow2_Suc_neq_1: "(2 ^ Suc j :: int) \<noteq> 1"
proof -
  have *: "\<And>x::int. 1 \<le> x \<Longrightarrow> 2 * x \<noteq> 1" by arith
  show ?thesis unfolding power_Suc by (rule *) simp
qed

lemma pow2_Suc_sdiv: "(2 ^ Suc j :: int) sdiv 2 = 2 ^ j"
  by (simp add: sdiv2_nonneg)

lemma hash_node_returns:
  assumes "hash_aux kec b0 = Some p0" "covers p0 k"
  shows "k + j \<le> 25 \<Longrightarrow>
         \<exists>q. hash_node kec (b0 # rest) offset (2 ^ j) (span (k + j)) = Some q \<and> covers q (k + j)"
proof (induction j arbitrary: offset)
  case 0
  with assms show ?case by (simp add: hash_node_1)
next
  case (Suc j)
  have k: "k + j \<le> 25" "k + j < 25" using Suc.prems by simp_all
  obtain h1 where h1: "hash_node kec (b0 # rest) offset (2 ^ j) (span (k + j)) = Some h1"
    "covers h1 (k + j)"
    using Suc.IH [OF k(1)] by blast
  obtain h2 where h2: "hash_node kec (b0 # rest) (int32 (offset + 2 ^ j)) (2 ^ j) (span (k + j)) = Some h2"
    "covers h2 (k + j)"
    using Suc.IH [OF k(1)] by blast
  obtain u1 where u1: "unpack kec h1 = Some u1" using unpack_covers [OF h1(2) k(1)] by blast
  obtain u2 where u2: "unpack kec h2 = Some u2" using unpack_covers [OF h2(2) k(1)] by blast
  show ?case
    using h1 h2 u1 u2 covers_pack [OF h1(2) k(2)] covers_normal [of _ "Suc (k + j)"]
    by (simp add: hash_node_step [OF pow2_Suc_neq_1] pow2_Suc_sdiv span_Suc_sdiv del: power_Suc)
qed



lemma hash_node_128:
  assumes "wf_Buffer c" "level c \<le> 1"
  shows "\<exists>p. hash_node kec (c # rest) 0 128 (int32 (calc_len (Suc (level c)))) = Some p"
proof -
  obtain p0 where p0: "hash_aux kec c = Some p0" "covers p0 (5 + 7 * level c)"
    using wf_hash_aux_covers [OF assms(1), of kec] assms(2) by auto
  have sz: "int32 (calc_len (Suc (level c))) = span (5 + 7 * level c + 7)"
    using int32_calc_len [of "Suc (level c)"] assms(2) by (simp add: add.commute)
  have "5 + 7 * level c + 7 \<le> 25" using assms(2) by simp
  from hash_node_returns [OF p0 this, of rest 0] show ?thesis
    unfolding sz by auto
qed

section \<open>Compression is transparent\<close>





lemma unpack_packed_0: "packed p = 0 \<Longrightarrow> unpack kec p = Some (hash p)"
  by (simp add: unpack_def unpack_loop_done)

lemma hash_buf_zero_flag:
  assumes nz: "no_false_zero kec"
  shows "k \<le> 25 \<Longrightarrow> hash_buf kec buf offset (span k) = Some p \<Longrightarrow>
         is_zero_hash kec p \<Longrightarrow> unpack kec p = Some (zero_digest kec k)"
proof (induction k arbitrary: offset p)
  case 0
  then show ?case
    by (auto simp: span_0 hash_buf_32 unpack_packed_0 is_zero_hash_def normal_def zero_digest_0
        split: if_splits)
next
  case (Suc k)
  have k: "k \<le> 25" "k < 25" using Suc.prems(1) by simp_all
  from Suc.prems(2) obtain h1 h2 where
    h1: "hash_buf kec buf offset (span k) = Some h1" and
    h2: "hash_buf kec buf (int32 (offset + span k)) (span k) = Some h2" and
    p: "(if is_zero_hash kec h2 then Some (pack h1)
         else unpack kec h1 \<bind> (\<lambda>u1. unpack kec h2 \<bind>
                (\<lambda>u2. Some (normal (hash_pair kec u1 u2) (span (Suc k)))))) = Some p"
    by (auto simp: hash_buf_step [OF span_Suc_neq] span_Suc_sdiv bind_eq_Some_conv)
  have c1: "covers h1 k" using covers_hash_buf [OF k(1) h1] .
  show ?case
  proof (cases "is_zero_hash kec h2")
    case True
    with p have pp: "p = pack h1" by simp
    with Suc.prems(3) have "is_zero_hash kec h1"
      by (simp add: is_zero_hash_def pack_def)
    then have "unpack kec h1 = Some (zero_digest kec k)"
      using Suc.IH [OF k(1) h1] by simp
    then show ?thesis
      unfolding pp by (simp add: unpack_pack [OF c1 k(2)] zero_digest_Suc)
  next
    case False
    with p obtain u1 u2 where "p = normal (hash_pair kec u1 u2) (span (Suc k))"
      by (auto simp: bind_eq_Some_conv)
    with Suc.prems(3) nz show ?thesis
      by (simp add: is_zero_hash_def normal_def no_false_zero_def)
  qed
qed







section \<open>The zero test\<close>




section \<open>What every packed value keeps true\<close>



















lemma wf_shaped: "wf_Buffer b \<Longrightarrow> shaped b"
proof (induction b rule: shaped.induct)
  case (1 lv lf nd)
  then show ?case by (auto split: option.splits if_splits)
qed

lemma flag_sound_hash_buf:
  assumes "no_false_zero kec" "k \<le> 25" "hash_buf kec buf offset (span k) = Some p"
  shows "flag_sound kec k p"
  using covers_hash_buf [OF assms(2,3)] hash_buf_zero_flag [OF assms]
  by (simp add: flag_sound_def)







section \<open>Buffers of zero bytes and empty children\<close>

lemma zero_region_hash_aux:
  assumes "zero_region L b" "L \<le> 2"
  shows "hash_aux kec b =
         Some \<lparr>hash = hash_uint256 kec 0, size' = 32, packed = int (5 + 7 * L)\<rparr>"
proof (cases b)
  case (Buffer lv lf nd)
  show ?thesis
  proof (cases "L = 0")
    case True
    with assms(1) Buffer show ?thesis
      by (auto simp: hash_aux_empty0 hash_aux_zero_leaf)
  next
    case False
    with assms(1) Buffer have "lv = L" "lf = None" by simp_all
    with Buffer assms(2) show ?thesis by (simp add: hash_aux_empty)
  qed
qed

lemma hash_node_zeros:
  assumes "hash_aux kec b0 = Some \<lparr>hash = hash_uint256 kec 0, size' = 32, packed = int k0\<rparr>"
  shows "k0 + j \<le> 1000 \<Longrightarrow>
         hash_node kec (b0 # rest) offset (2 ^ j) sz =
           Some \<lparr>hash = hash_uint256 kec 0, size' = 32, packed = int (k0 + j)\<rparr>"
proof (induction j arbitrary: offset sz)
  case 0
  with assms show ?case by (simp add: hash_node_1)
next
  case (Suc j)
  have k: "k0 + j \<le> 1000" using Suc.prems by simp
  show ?case
    using k by (simp add: hash_node_step [OF pow2_Suc_neq_1] pow2_Suc_sdiv Suc.IH [OF k]
        is_zero_hash_def pack_def int32_id del: power_Suc)
qed
lemma hash_node_empty_children:
  "lv \<le> 2 \<Longrightarrow>
   hash_node kec (replicate 128 (Buffer lv None None)) 0 128 sz =
     Some \<lparr>hash = hash_uint256 kec 0, size' = 32, packed = int (12 + 7 * lv)\<rparr>"
proof -
  assume lv: "lv \<le> 2"
  have r: "replicate 128 (Buffer lv None None) =
      Buffer lv None None # replicate 127 (Buffer lv None None)"
    by (simp add: replicate_Suc [symmetric] del: replicate_Suc)
  have "hash_node kec (Buffer lv None None # replicate 127 (Buffer lv None None)) 0 (2 ^ 7) sz =
      Some \<lparr>hash = hash_uint256 kec 0, size' = 32, packed = int (5 + 7 * lv + 7)\<rparr>"
    using lv by (intro hash_node_zeros hash_aux_empty) simp_all
  then show ?thesis unfolding r by (simp add: add.commute)
qed

lemma hash_aux_empty_extent:
  "hash_aux kec (Buffer lv None None) = zero_packed kec (int32 (calc_len lv))"
  by (cases "lv = 0") (simp_all add: hash_aux_code calc_len_def int32_def)

section \<open>Evaluations with the digest functions to compute with\<close>

lemma demo_kec_sevens: "demo_kec (replicate 32 7) = 0"
  by (simp add: demo_kec_def)

lemma demo_hash_buf_sevens:
  "hash_buf demo_kec (replicate 1024 7) 0 1024 = Some \<lparr>hash = 0, size' = 1024, packed = 0\<rparr>"
  by (simp add: hash_buf_step hash_buf_32 sdiv_numeral_eval int32_def demo_kec_sevens
      is_zero_hash_def demo_hash_uint256_0 normal_def unpack_packed_0 demo_hash_pair)

text \<open>
  Where \<^verbatim>\<open>hash_node\<close> combines two halves that are not zero, the packed value it builds
  has the size it was called with, which is above 1024: here two leaves of 1024 bytes 7.
\<close>

lemma hash_node_size_above_leaf:
  "hash_node demo_kec [Buffer 0 (Some (replicate 1024 7)) None] 0 2 2048 =
     Some \<lparr>hash = 0, size' = 2048, packed = 0\<rparr>"
  by (simp add: hash_node_step hash_node_1 sdiv_numeral_eval
      hash_aux_code [of _ "Buffer 0 (Some _) None"] demo_hash_buf_sevens is_zero_hash_def
      demo_hash_uint256_0 unpack_packed_0 demo_hash_pair normal_def)




text \<open>
  With \<open>collide_kec\<close>: a leaf that begins with 64 bytes 7 and a leaf that begins with
  64 bytes 9, the rest zero, and a leaf of 128 bytes 5, 64 bytes 7 and zero bytes.
\<close>

lemma collide_hash_uint256_0: "hash_uint256 collide_kec 0 = 1"
  by (simp add: hash_uint256_0 collide_kec_def)

lemma collide_hash_pair:
  "hash_pair collide_kec a b =
     (if a = 150 \<and> b = 150 then 1
      else if a = 160 \<and> b = 160 then 2
      else if a = b \<and> 0 < unat a \<and> unat a \<le> 100 then a + 1
      else 200 + a + 2 * b)"
  by (simp add: hash_pair_def collide_kec_def length_to_big_endian from_to_big_endian)

lemma collide_collisions: "\<not> no_false_zero collide_kec \<and> \<not> zero_preimage_unique collide_kec"
proof -
  have "hash_pair collide_kec 150 150 = hash_uint256 collide_kec 0"
    by (simp add: collide_hash_pair collide_hash_uint256_0)
  then have a: "\<not> no_false_zero collide_kec"
    unfolding no_false_zero_def by blast
  have "hash_pair collide_kec 160 160 = zero_digest collide_kec (Suc 0)"
    "(160 :: uint256_t) \<noteq> zero_digest collide_kec 0"
    using collide_hash_uint256_0
    by (simp_all add: zero_digest_Suc zero_digest_0 collide_hash_pair)
  then have b: "\<not> zero_preimage_unique collide_kec"
    unfolding zero_preimage_unique_def by (metis zero_less_numeral)
  from a b show ?thesis by blast
qed












section \<open>Claims\<close>

text \<open>
  C1, as the code has it. \<^verbatim>\<open>Buffer::hash\<close> returns the \<^verbatim>\<open>hash\<close> field of the packed
  value that \<^verbatim>\<open>hash_aux\<close> computes; it does not unpack it. For an empty buffer of level 0
  the result is \<^verbatim>\<open>zero_hash(32)\<close>, whereas unpacking the packed value gives
  \<^verbatim>\<open>zero_hash(1024)\<close>.
\<close>

theorem Buffer_hash_packed_field:
  "Buffer_hash kec b = map_option hash (hash_aux kec b) \<and>
   Buffer_hash kec (Buffer 0 None nd) = zero_hash kec 32 \<and>
   (hash_aux kec (Buffer 0 None nd) \<bind> unpack kec) = zero_hash kec 1024"
  by (simp add: Buffer_hash_def [of kec b] Buffer_hash_empty0 zero_hash_32 expand_empty0
      zero_hash_1024)

text \<open>
  C1, as the spec states it, fails: with the digest \<open>demo_kec\<close> the commitment of the
  empty buffer of level 0 is neither the unpacked root nor \<^verbatim>\<open>zero_hash(1024)\<close>.
\<close>

theorem Buffer_hash_not_expanded:
  "Buffer_hash demo_kec (Buffer 0 None None) \<noteq>
     (hash_aux demo_kec (Buffer 0 None None) \<bind> unpack demo_kec) \<and>
   Buffer_hash demo_kec (Buffer 0 None None) \<noteq> zero_hash demo_kec 1024"
  using demo_zero_digest [of 5]
  by (simp add: Buffer_hash_empty0 expand_empty0 zero_hash_1024 demo_hash_uint256_0)

text \<open>
  C2, what the code does instead. The base case of \<^verbatim>\<open>hash_node\<close> returns the packed hash
  of the first child of the array, whatever the offset is: called with offset 1 on an
  empty buffer followed by a leaf of 1024 bytes 7, it returns the packed zero of the
  first child and not the packed hash of the second. And a buffer above level 0 whose
  \<^verbatim>\<open>leaf\<close> pointer is null has the commitment of the empty buffer, whatever its children
  are.
\<close>

theorem hash_node_base_ignores_offset:
  "hash_node kec (b0 # rest) offset 1 sz = hash_aux kec b0 \<and>
   Buffer_hash kec (Buffer (Suc lv) None (Some children)) =
     Buffer_hash kec (Buffer (Suc lv) None None) \<and>
   hash_node demo_kec [Buffer 0 None None, Buffer 0 (Some (replicate 1024 7)) None] 1 1 1024 =
     Some \<lparr>hash = 1, size' = 32, packed = 5\<rparr> \<and>
   hash_aux demo_kec (Buffer 0 (Some (replicate 1024 7)) None) =
     Some \<lparr>hash = 0, size' = 1024, packed = 0\<rparr>"
  by (simp add: hash_node_1 Buffer_hash_def hash_aux_null_leaf hash_aux_empty0
      demo_hash_uint256_0 hash_aux_code [of _ "Buffer 0 (Some _) None"] demo_hash_buf_sevens)










text \<open>
  C6. \<^verbatim>\<open>zero_hash(32)\<close> is the primitive digest of a block of 32 zero bytes. For every
  size \<open>32 * 2 ^ k\<close>, \<^verbatim>\<open>zero_hash\<close> returns, and its value at the doubled size is the
  combination of that value with itself. \<^verbatim>\<open>zero_hash(1024)\<close> is the digest of 32 zero
  bytes doubled five times.
\<close>

theorem zero_hash_doubling:
  "zero_hash kec 32 = Some (kec (replicate 32 0)) \<and>
   (\<exists>h. zero_hash kec (32 * 2 ^ k) = Some h \<and>
        zero_hash kec (32 * 2 ^ Suc k) = Some (hash_pair kec h h)) \<and>
   zero_hash kec 1024 =
     Some (((\<lambda>h. hash_pair kec h h) ^^ 5) (kec (replicate 32 0)))"
proof -
  have a: "zero_hash kec 32 = Some (kec (replicate 32 0))"
    by (simp only: zero_hash_32 hash_uint256_0)
  have "zero_hash kec (span k) = Some (zero_digest kec k)"
       "zero_hash kec (span (Suc k)) = Some (zero_digest kec (Suc k))"
    by (rule zero_hash_span)+
  then have b: "\<exists>h. zero_hash kec (32 * 2 ^ k) = Some h \<and>
               zero_hash kec (32 * 2 ^ Suc k) = Some (hash_pair kec h h)"
    by (simp add: span_def zero_digest_Suc)
  have c: "zero_hash kec 1024 =
      Some (((\<lambda>h. hash_pair kec h h) ^^ 5) (kec (replicate 32 0)))"
    by (simp add: zero_hash_1024 zero_digest_def)
  from a b c show ?thesis by blast
qed

text \<open>
  C7, what the code does at level 3. The buffer of level 3 whose 128 children are empty
  buffers of level 2 is a buffer of zero bytes. Neither it nor the empty buffer of level 3
  has a commitment: \<^verbatim>\<open>hash_aux\<close> calls \<^verbatim>\<open>zero_packed\<close> with the extent \<open>2 ^ 31\<close> as an
  \<^verbatim>\<open>int\<close>, and no value comes back. \<^verbatim>\<open>hash_node\<close> on these children does return the
  packed zero of \<open>2 ^ 31\<close> bytes, but \<^verbatim>\<open>hash_aux\<close> does not call it.
\<close>

theorem zero_region_level3:
  "zero_region 3 (Buffer 3 None (Some (replicate 128 (Buffer 2 None None)))) \<and>
   Buffer_hash kec (Buffer 3 None None) = None \<and>
   Buffer_hash kec (Buffer 3 None (Some (replicate 128 (Buffer 2 None None)))) = None \<and>
   hash_node kec (replicate 128 (Buffer 2 None None)) 0 128 (int32 (calc_len 3)) =
     Some \<lparr>hash = hash_uint256 kec 0, size' = 32, packed = 26\<rparr>"
  using hash_node_empty_children [of 2 kec "int32 (calc_len 3)"]
  by (simp add: Buffer_hash_def no_commitment_high_level)

text \<open>
  C8, as the code has it. For \<open>k \<le> 25\<close> (the sizes \<open>32 * 2 ^ k\<close> that an \<^verbatim>\<open>int\<close>
  holds), \<^verbatim>\<open>zero_packed(32 * 2 ^ k)\<close> is the triple of \<^verbatim>\<open>zero_hash(32)\<close>, 32 and \<open>k\<close>,
  and every packed value that \<^verbatim>\<open>hash_buf\<close> returns for the size \<open>32 * 2 ^ k\<close> has
  \<^verbatim>\<open>size\<close> times 2 to the \<^verbatim>\<open>packed\<close> equal to that size. The packed value of the empty
  buffer of a level is what \<^verbatim>\<open>zero_packed\<close> returns for the extent as an \<^verbatim>\<open>int\<close>; at the
  levels 0, 1 and 2 the extent is \<open>32 * 2 ^ (5 + 7 * level)\<close> and the packed value is
  the triple of \<^verbatim>\<open>zero_hash(32)\<close>, 32 and \<open>5 + 7 * level\<close>.
\<close>

theorem size_coverage:
  "k \<le> 25 \<Longrightarrow>
   zero_packed kec (32 * 2 ^ k) =
     Some \<lparr>hash = hash_uint256 kec 0, size' = 32, packed = int k\<rparr> \<and>
   (\<forall>buf offset p. hash_buf kec buf offset (32 * 2 ^ k) = Some p \<longrightarrow>
      0 \<le> packed p \<and> size' p * 2 ^ nat (packed p) = 32 * 2 ^ k) \<and>
   hash_aux kec (Buffer lv None None) = zero_packed kec (int32 (calc_len lv)) \<and>
   (lv \<le> 2 \<longrightarrow>
      calc_len lv = 32 * 2 ^ (5 + 7 * lv) \<and>
      hash_aux kec (Buffer lv None None) =
        Some \<lparr>hash = hash_uint256 kec 0, size' = 32, packed = int (5 + 7 * lv)\<rparr>)"
proof (intro conjI allI impI)
  assume k: "k \<le> 25"
  show "zero_packed kec (32 * 2 ^ k) =
          Some \<lparr>hash = hash_uint256 kec 0, size' = 32, packed = int k\<rparr>"
    using zero_packed_span [OF k, of kec] by (simp add: span_def)
  {
    fix buf offset p
    assume "hash_buf kec buf offset (32 * 2 ^ k) = Some p"
    then have "covers p k"
      using covers_hash_buf [OF k, of kec buf offset p] by (simp add: span_def)
    then show "0 \<le> packed p" "size' p * 2 ^ nat (packed p) = 32 * 2 ^ k"
      using covers_size [of p k] by (simp_all add: span_def)
  }
  show "hash_aux kec (Buffer lv None None) = zero_packed kec (int32 (calc_len lv))"
    by (rule hash_aux_empty_extent)
  show "calc_len lv = 32 * 2 ^ (5 + 7 * lv)"
    using calc_len_span [of lv] by (simp add: span_def)
  show "hash_aux kec (Buffer lv None None) =
        Some \<lparr>hash = hash_uint256 kec 0, size' = 32, packed = int (5 + 7 * lv)\<rparr>"
    if "lv \<le> 2"
    using that by (rule hash_aux_empty)
qed

text \<open>
  C8, as the code has it, at the size 1024: the packed zero, the packed hash of a leaf of
  1024 bytes 7, and the packed hash of the empty buffer of level 2.
\<close>

theorem size_coverage_witness:
  "zero_packed demo_kec (32 * 2 ^ 5) = Some \<lparr>hash = 1, size' = 32, packed = 5\<rparr> \<and>
   (\<exists>p. hash_buf demo_kec (replicate 1024 7) 0 (32 * 2 ^ 5) = Some p \<and>
        0 \<le> packed p \<and> size' p * 2 ^ nat (packed p) = 32 * 2 ^ 5) \<and>
   hash_aux demo_kec (Buffer 2 None None) = Some \<lparr>hash = 1, size' = 32, packed = 19\<rparr>"
proof -
  have k: "(5::nat) \<le> 25" by simp
  have l: "(2::nat) \<le> 2" by simp
  obtain p where p: "hash_buf demo_kec (replicate 1024 7) 0 (32 * 2 ^ 5) = Some p"
    using demo_hash_buf_sevens by simp
  note t = size_coverage [OF k, of demo_kec 2, unfolded demo_hash_uint256_0]
  from t p have a: "0 \<le> packed p \<and> size' p * 2 ^ nat (packed p) = 32 * 2 ^ 5" by blast
  from t have b: "zero_packed demo_kec (32 * 2 ^ 5) =
      Some \<lparr>hash = 1, size' = 32, packed = 5\<rparr>"
    by simp
  from t l have "hash_aux demo_kec (Buffer 2 None None) =
      Some \<lparr>hash = 1, size' = 32, packed = int (5 + 7 * 2)\<rparr>"
    by blast
  then have c: "hash_aux demo_kec (Buffer 2 None None) =
      Some \<lparr>hash = 1, size' = 32, packed = 19\<rparr>"
    by simp
  from a b c p show ?thesis by blast
qed

text \<open>
  C8 as the spec states it, for every size, fails: \<^verbatim>\<open>zero_packed(65)\<close>, and
  \<^verbatim>\<open>hash_buf\<close> of 65 zero bytes, return the triple of \<^verbatim>\<open>zero_hash(32)\<close>, 32 and 1, for
  which \<^verbatim>\<open>size\<close> times 2 to the \<^verbatim>\<open>packed\<close> is 64.
\<close>

theorem size_65_covers_64:
  "zero_packed demo_kec 65 = Some \<lparr>hash = 1, size' = 32, packed = 1\<rparr> \<and>
   hash_buf demo_kec (replicate 1024 0) 0 65 = Some \<lparr>hash = 1, size' = 32, packed = 1\<rparr> \<and>
   size' \<lparr>hash = 1, size' = 32, packed = 1\<rparr> *
     2 ^ nat (packed \<lparr>hash = 1, size' = 32, packed = 1\<rparr>) = (64::int)"
  by (simp add: zero_packed_step zero_packed_32 zero_hash_32 hash_buf_step hash_buf_32
      sdiv_numeral_eval demo_hash_uint256_0 normal_def pack_def int32_def is_zero_hash_def
      demo_kec_def)

text \<open>
  C9, as the code has it. No function checks its size. \<^verbatim>\<open>zero_hash\<close> and
  \<^verbatim>\<open>zero_packed\<close> return exactly for the sizes whose halving arrives at 32; for every
  other size they, and \<^verbatim>\<open>hash_buf\<close>, yield no value at all.
\<close>

theorem returns_iff_halves_to_32:
  "(zero_hash kec sz \<noteq> None) = halves_to_32 sz \<and>
   (zero_packed kec sz \<noteq> None) = halves_to_32 sz \<and>
   (\<not> halves_to_32 sz \<longrightarrow> hash_buf kec buf offset sz = None)"
  using zero_hash_Some_halves [of kec sz] halves_zero_hash [of sz kec]
    zero_packed_Some [of kec sz] halves_zero_packed [of sz kec]
    hash_buf_Some_halves [of kec buf offset sz]
  by (cases "hash_buf kec buf offset sz") auto

text \<open>C9, as the code has it, at the size 48, whose halving passes 24 and never arrives at 32.\<close>

theorem returns_iff_halves_to_32_witness:
  "\<not> halves_to_32 48 \<and> zero_hash demo_kec 48 = None \<and> zero_packed demo_kec 48 = None \<and>
   hash_buf demo_kec (replicate 1024 0) 0 48 = None"
proof -
  have "\<not> halves_to_32 48"
    by (simp add: halves_to_32.simps sdiv_numeral_eval)
  then show ?thesis
    using returns_iff_halves_to_32 [of demo_kec 48 "replicate 1024 0" 0] by simp
qed

text \<open>
  C9, as the spec states it, fails: 65 is not of the form \<open>32 * 2 ^ k\<close>, and
  \<^verbatim>\<open>zero_hash(65)\<close> returns the digest of the size 64, \<^verbatim>\<open>zero_packed(65)\<close> the packed
  zero of the size 64.
\<close>

theorem odd_size_accepted:
  "zero_hash demo_kec 65 = Some 2 \<and> zero_hash demo_kec 64 = Some 2 \<and>
   zero_packed demo_kec 65 = Some \<lparr>hash = 1, size' = 32, packed = 1\<rparr>"
  by (simp add: zero_hash_step zero_hash_32 zero_packed_step zero_packed_32 sdiv_numeral_eval
      demo_hash_uint256_0 demo_hash_pair normal_def pack_def int32_def)

text \<open>
  C10, what the code does on the empty buffer of level 3. The buffer is well-formed. Its
  extent \<open>1024 * 128 ^ 3 = 2 ^ 31\<close> is not a value of \<^verbatim>\<open>int\<close>: \<^verbatim>\<open>zero_packed\<close> receives
  \<open>- 2 ^ 31\<close>, its halving never arrives at 32, and neither \<^verbatim>\<open>zero_packed\<close> nor
  \<^verbatim>\<open>hash_aux\<close> nor \<^verbatim>\<open>Buffer::hash\<close> returns.
\<close>

theorem level3_no_commitment:
  "wf_Buffer (Buffer 3 None None) \<and>
   calc_len 3 = 2 ^ 31 \<and>
   int32 (calc_len 3) = - (2 ^ 31) \<and>
   zero_packed kec (int32 (calc_len 3)) = None \<and>
   hash_aux kec (Buffer 3 None None) = None \<and>
   Buffer_hash kec (Buffer 3 None None) = None"
proof -
  have a: "hash_aux kec (Buffer 3 None None) = None"
    by (simp add: no_commitment_high_level)
  then have b: "zero_packed kec (int32 (calc_len 3)) = None"
    by (simp add: hash_aux_empty_extent)
  have c: "calc_len 3 = 2 ^ 31" "int32 (calc_len 3) = - (2 ^ 31)"
    by (simp_all add: calc_len_def int32_def)
  from a b c show ?thesis by (simp add: Buffer_hash_def)
qed

end
